theory Spec2Isabelle
  imports Complex_Main "HOL-Library.Product_Lexorder" "HOL-Library.Multiset"
begin

section \<open>The adjacency graph\<close>

text \<open>
  The class \<^verbatim>\<open>Graph\<close> of the sources holds \<^verbatim>\<open>int num_vertices_\<close> and
  \<^verbatim>\<open>std::vector<std::unordered_set<int>> adj_list_\<close>. Vertex identifiers are C++
  \<^verbatim>\<open>int\<close>s; the only arithmetic done on them is a decrement of a positive value and a
  loop increment below \<^verbatim>\<open>num_vertices_\<close>, so they are modelled as \<open>int\<close>. An
  \<^verbatim>\<open>unordered_set<int>\<close> is modelled by the set of its elements; its iteration order,
  which the library leaves unspecified, is a parameter wherever the code iterates over it.
\<close>

record Graph =
  num_vertices :: int
  adj_list :: "int set list"

datatype failure = CannotOpenFile | InvalidHeader | LengthError | UndefinedBehaviour

text \<open>
  The constructor \<^verbatim>\<open>Graph(int vertices) : num_vertices_(vertices), adj_list_(vertices)\<close>.
  A negative argument is converted to a \<^verbatim>\<open>size_t\<close> beyond \<^verbatim>\<open>max_size()\<close>, for which the
  vector constructor throws \<^verbatim>\<open>std::length_error\<close>; nothing catches it.
\<close>

definition Graph_ctor :: "int \<Rightarrow> failure + Graph" where
  "Graph_ctor vertices =
     (if vertices < 0 then Inl LengthError
      else Inr \<lparr>num_vertices = vertices, adj_list = replicate (nat vertices) {}\<rparr>)"

text \<open>\<^verbatim>\<open>adj_list_[u]\<close> is defined exactly when \<open>u\<close> indexes the vector.\<close>

definition in_vector :: "Graph \<Rightarrow> int \<Rightarrow> bool" where
  "in_vector g u \<longleftrightarrow> 0 \<le> u \<and> nat u < length (adj_list g)"

text \<open>
  \<^verbatim>\<open>add_edge\<close> as in the Taskflow programs (with the range check), writing both
  directions.
\<close>

definition add_edge :: "int \<Rightarrow> int \<Rightarrow> Graph \<Rightarrow> Graph" where
  "add_edge u v g =
     (if u \<ge> 0 \<and> u < num_vertices g \<and> v \<ge> 0 \<and> v < num_vertices g then
        (let a1 = (adj_list g)[nat u := insert v (adj_list g ! nat u)];
             a2 = a1[nat v := insert u (a1 ! nat v)]
         in g\<lparr>adj_list := a2\<rparr>)
      else g)"

text \<open>
  \<^verbatim>\<open>add_edge\<close> as in \<^verbatim>\<open>compare_greedy_mel.cc\<close>: no range check, so an index outside the
  vector is undefined behaviour (\<open>None\<close>).
\<close>

definition add_edge_unchecked :: "int \<Rightarrow> int \<Rightarrow> Graph \<Rightarrow> Graph option" where
  "add_edge_unchecked u v g =
     (if in_vector g u \<and> in_vector g v then
        (let a1 = (adj_list g)[nat u := insert v (adj_list g ! nat u)];
             a2 = a1[nat v := insert u (a1 ! nat v)]
         in Some (g\<lparr>adj_list := a2\<rparr>))
      else None)"

text \<open>
  \<^verbatim>\<open>is_adjacent(u, v)\<close> returns \<^verbatim>\<open>adj_list_[u].count(v)\<close> with no range check on \<open>u\<close>:
  \<open>None\<close> stands for the undefined behaviour of indexing outside the vector.
\<close>

definition is_adjacent :: "Graph \<Rightarrow> int \<Rightarrow> int \<Rightarrow> bool option" where
  "is_adjacent g u v = (if in_vector g u then Some (v \<in> adj_list g ! nat u) else None)"

definition get_degree :: "Graph \<Rightarrow> int \<Rightarrow> int" where
  "get_degree g u =
     (if u \<ge> 0 \<and> u < num_vertices g then int (card (adj_list g ! nat u)) else 0)"

text \<open>
  \<^verbatim>\<open>get_neighbors\<close> copies the set into a vector in iteration order; \<open>enum\<close> is that
  order.
\<close>

definition get_neighbors :: "Graph \<Rightarrow> (int set \<Rightarrow> int list) \<Rightarrow> int \<Rightarrow> int list" where
  "get_neighbors g enum u =
     (if u < 0 \<or> u \<ge> num_vertices g then [] else enum (adj_list g ! nat u))"

text \<open>
  The class invariant: the vector has \<^verbatim>\<open>num_vertices_\<close> entries (an \<^verbatim>\<open>int\<close>, hence at
  most \<open>2\<^sup>3\<^sup>1 - 1\<close>), every stored neighbour is a vertex, every neighbour set is finite
  and the relation is symmetric. Only the constructor and \<^verbatim>\<open>add_edge\<close> write the private
  fields, and both keep it.
\<close>

definition graph_inv :: "Graph \<Rightarrow> bool" where
  "graph_inv g \<longleftrightarrow>
     0 \<le> num_vertices g \<and> num_vertices g \<le> 2147483647 \<and>
     length (adj_list g) = nat (num_vertices g) \<and>
     (\<forall>i \<in> set [0..<length (adj_list g)].
        finite (adj_list g ! i) \<and>
        (\<forall>v \<in> adj_list g ! i. 0 \<le> v \<and> nat v < length (adj_list g) \<and> int i \<in> adj_list g ! nat v))"

section \<open>The greedy extender\<close>

text \<open>
  The inner loop of \<^verbatim>\<open>find_greedy_max_clique\<close>: scan the clique, stop at the first member
  that is not adjacent to \<open>u\<close>.
\<close>

fun can_add :: "Graph \<Rightarrow> int \<Rightarrow> int list \<Rightarrow> bool option" where
  "can_add g u [] = Some True"
| "can_add g u (v # vs) =
     (case is_adjacent g u v of
        None \<Rightarrow> None
      | Some False \<Rightarrow> Some False
      | Some True \<Rightarrow> can_add g u vs)"

text \<open>The outer loop over \<^verbatim>\<open>vertex_order\<close>, with the clique built so far.\<close>

fun greedy_loop :: "Graph \<Rightarrow> int list \<Rightarrow> int list \<Rightarrow> int list option" where
  "greedy_loop g [] clique = Some clique"
| "greedy_loop g (u # us) clique =
     (case can_add g u clique of
        None \<Rightarrow> None
      | Some b \<Rightarrow> greedy_loop g us (if b then clique @ [u] else clique))"

definition find_greedy_max_clique :: "Graph \<Rightarrow> int list \<Rightarrow> int list option" where
  "find_greedy_max_clique g vertex_order = greedy_loop g vertex_order []"

text \<open>Pairwise adjacency of a clique, as the specification words it.\<close>

definition pairwise_adjacent :: "Graph \<Rightarrow> int list \<Rightarrow> bool" where
  "pairwise_adjacent g c \<longleftrightarrow>
     (\<forall>u \<in> set c. \<forall>v \<in> set c. u \<noteq> v \<longrightarrow> is_adjacent g u v = Some True)"

text \<open>
  The scan as the specification words it: start from the empty clique and, for each vertex
  in order, append it iff it is adjacent to every current member.
\<close>

definition greedy_spec :: "(int \<Rightarrow> int \<Rightarrow> bool) \<Rightarrow> int list \<Rightarrow> int list" where
  "greedy_spec adj order =
     foldl (\<lambda>c u. if \<forall>v \<in> set c. adj u v then c @ [u] else c) [] order"

section \<open>The degree-descending ordering\<close>

text \<open>
  \<^verbatim>\<open>get_vertices_sorted_by_degree\<close> collects the pairs
  \<^verbatim>\<open>{-static_cast<int>(adj_list_[i].size()), i}\<close> for \<open>i = 0, \<dots>, num_vertices_ - 1\<close>, sorts
  them with \<^verbatim>\<open>std::sort\<close> (the lexicographic order of \<^verbatim>\<open>std::pair\<close>) and returns the
  second components. The pairs are pairwise different, so the sorted sequence does not
  depend on the sorting algorithm. Under the class invariant a neighbour set has at most
  \<^verbatim>\<open>num_vertices_\<close> elements, so the cast and the negation do not overflow.
\<close>

definition get_vertices_sorted_by_degree :: "Graph \<Rightarrow> int list" where
  "get_vertices_sorted_by_degree g =
     (let degrees = map (\<lambda>i. (- int (card (adj_list g ! i)), int i)) [0..<nat (num_vertices g)];
          sorted_degrees = sort degrees
      in map snd sorted_degrees)"

text \<open>
  The order the specification asks of DegreeDescending: higher degree first, equal degrees
  by ascending vertex identifier.
\<close>

definition degree_desc_before :: "Graph \<Rightarrow> int \<Rightarrow> int \<Rightarrow> bool" where
  "degree_desc_before g a b \<longleftrightarrow>
     get_degree g a > get_degree g b \<or> (get_degree g a = get_degree g b \<and> a < b)"

text \<open>The sort key of a vertex, as the pair the source builds for it.\<close>

definition degree_key :: "Graph \<Rightarrow> int \<Rightarrow> int \<times> int" where
  "degree_key g v = (- get_degree g v, v)"

text \<open>
  Scenario A of the specification: \<^verbatim>\<open>Graph g(4)\<close> followed by one \<^verbatim>\<open>add_edge\<close> per edge.
\<close>

definition scenario_A :: Graph where
  "scenario_A =
     add_edge 2 3 (add_edge 1 2 (add_edge 0 2 (add_edge 0 1
       \<lparr>num_vertices = 4, adj_list = replicate 4 {}\<rparr>)))"

section \<open>Reading the DIMACS text format\<close>

text \<open>
  A \<^verbatim>\<open>std::stringstream\<close> over one line: the characters not yet consumed and the fail
  bit. An extraction on a stream whose fail bit is set, or that finds only white space
  before the end, leaves its variable unchanged and sets the fail bit. White space is that
  of the classic locale.
\<close>

record istream =
  rest :: string
  failed :: bool

definition stringstream :: "string \<Rightarrow> istream" where
  "stringstream line = \<lparr>rest = line, failed = False\<rparr>"

definition is_space :: "char \<Rightarrow> bool" where
  "is_space c \<longleftrightarrow>
     c = CHR '' '' \<or> c = CHR 0x09 \<or> c = CHR 0x0A \<or> c = CHR 0x0B \<or> c = CHR 0x0C \<or> c = CHR 0x0D"

definition is_digit :: "char \<Rightarrow> bool" where
  "is_digit c \<longleftrightarrow> 48 \<le> (of_char c :: nat) \<and> (of_char c :: nat) \<le> 57"

definition digits_value :: "string \<Rightarrow> int" where
  "digits_value ds = foldl (\<lambda>n c. 10 * n + (int (of_char c) - 48)) 0 ds"

text \<open>\<^verbatim>\<open>ss >> temp\<close> for a \<^verbatim>\<open>std::string\<close>: skip white space, take the next word.\<close>

definition extract_word :: "string \<Rightarrow> istream \<Rightarrow> string \<times> istream" where
  "extract_word x s =
     (if failed s then (x, s)
      else
        (let r = dropWhile is_space (rest s)
         in if r = [] then (x, \<lparr>rest = [], failed = True\<rparr>)
            else (takeWhile (\<lambda>c. \<not> is_space c) r,
                  \<lparr>rest = dropWhile (\<lambda>c. \<not> is_space c) r, failed = False\<rparr>)))"

text \<open>\<^verbatim>\<open>ss >> type\<close> for a \<^verbatim>\<open>char\<close>: skip white space, take one character.\<close>

definition extract_char :: "char \<Rightarrow> istream \<Rightarrow> char \<times> istream" where
  "extract_char x s =
     (if failed s then (x, s)
      else
        (case dropWhile is_space (rest s) of
           [] \<Rightarrow> (x, \<lparr>rest = [], failed = True\<rparr>)
         | c # cs \<Rightarrow> (c, \<lparr>rest = cs, failed = False\<rparr>)))"

text \<open>
  \<^verbatim>\<open>ss >> u\<close> for an \<^verbatim>\<open>int\<close>: skip white space, read an optional sign and the longest run
  of decimal digits. With no digit the variable becomes 0 and the fail bit is set; a value
  outside the range of \<^verbatim>\<open>int\<close> is replaced by the nearest bound and the fail bit is set.
\<close>

definition extract_int :: "int \<Rightarrow> istream \<Rightarrow> int \<times> istream" where
  "extract_int x s =
     (if failed s then (x, s)
      else
        (let r = dropWhile is_space (rest s)
         in if r = [] then (x, \<lparr>rest = [], failed = True\<rparr>)
            else
              (let neg = (hd r = CHR ''-'');
                   r1 = (if hd r = CHR ''-'' \<or> hd r = CHR ''+'' then tl r else r);
                   ds = takeWhile is_digit r1;
                   r2 = dropWhile is_digit r1;
                   n = (if neg then - digits_value ds else digits_value ds)
               in if ds = [] then (0, \<lparr>rest = r2, failed = True\<rparr>)
                  else if n > 2147483647 then (2147483647, \<lparr>rest = r2, failed = True\<rparr>)
                  else if n < - 2147483648 then (- 2147483648, \<lparr>rest = r2, failed = True\<rparr>)
                  else (n, \<lparr>rest = r2, failed = False\<rparr>))))"

text \<open>
  The header line of \<^verbatim>\<open>dataset_taskflow_greedy.cc\<close>:
  \<^verbatim>\<open>ss >> temp >> format >> num_vertices >> num_edges\<close>, both counts initialised to 0
  (\<open>num_v\<close>, \<open>num_e\<close> below). The other programs read only the vertex count, with the
  same result for it.
\<close>

definition parse_header :: "string \<Rightarrow> int \<times> int" where
  "parse_header line =
     (let (temp, s1) = extract_word [] (stringstream line);
          (format, s2) = extract_word [] s1;
          (num_v, s3) = extract_int 0 s2;
          (num_e, s4) = extract_int 0 s3
      in (num_v, num_e))"

text \<open>
  The first loop over the lines of the file (a file is the list of its lines): skip empty
  lines and lines starting with \<open>c\<close>, stop at the first line starting with \<open>p\<close>; any
  other line is passed over. Returns the counts and the lines not yet read.
\<close>

fun find_header :: "string list \<Rightarrow> (int \<times> int) \<times> string list" where
  "find_header [] = ((0, 0), [])"
| "find_header (line # ls) =
     (if line = [] \<or> hd line = CHR ''c'' then find_header ls
      else if hd line = CHR ''p'' then (parse_header line, ls)
      else find_header ls)"

text \<open>
  One line of the second loop. \<^verbatim>\<open>int u, v;\<close> are declared without a value; \<open>uv\<close> is what
  they happen to hold. A line starting with \<open>e\<close> is read with
  \<^verbatim>\<open>ss >> type >> u >> v\<close> and its outcome is not tested; any other line is read with
  \<^verbatim>\<open>tss >> u >> v\<close> and skipped when that fails. Then each positive index is decremented.
  The result is the pair handed to \<^verbatim>\<open>add_edge\<close>, or \<open>None\<close> for a skipped line.
\<close>

definition data_line :: "int \<times> int \<Rightarrow> string \<Rightarrow> (int \<times> int) option" where
  "data_line uv line =
     (if line = [] \<or> hd line = CHR ''c'' then None
      else
        (let r = (if hd line = CHR ''e'' then
                    (let (type, s1) = extract_char (CHR ''?'') (stringstream line);
                         (u, s2) = extract_int (fst uv) s1;
                         (v, s3) = extract_int (snd uv) s2
                     in Some (u, v))
                  else
                    (let (u, s1) = extract_int (fst uv) (stringstream line);
                         (v, s2) = extract_int (snd uv) s1
                     in if failed s2 then None else Some (u, v)))
         in case r of
              None \<Rightarrow> None
            | Some (u, v) \<Rightarrow> Some (if u > 0 then u - 1 else u, if v > 0 then v - 1 else v)))"

text \<open>The second loop; \<open>uninit k\<close> is the content of \<open>u\<close>, \<open>v\<close> before the \<open>k\<close>-th line.\<close>

fun edge_loop :: "(nat \<Rightarrow> int \<times> int) \<Rightarrow> nat \<Rightarrow> string list \<Rightarrow> Graph \<Rightarrow> Graph" where
  "edge_loop uninit k [] g = g"
| "edge_loop uninit k (line # ls) g =
     edge_loop uninit (Suc k) ls
       (case data_line (uninit k) line of None \<Rightarrow> g | Some (u, v) \<Rightarrow> add_edge u v g)"

text \<open>
  \<^verbatim>\<open>load_dimacs_graph\<close> of \<^verbatim>\<open>dataset_taskflow_greedy.cc\<close>. The file is \<open>None\<close> when it
  cannot be opened. \<^verbatim>\<open>exit(1)\<close> and the uncaught exception end the process (\<open>Inl\<close>).
\<close>

definition load_dimacs_graph :: "(nat \<Rightarrow> int \<times> int) \<Rightarrow> string list option \<Rightarrow> failure + Graph" where
  "load_dimacs_graph uninit file =
     (case file of
        None \<Rightarrow> Inl CannotOpenFile
      | Some lines \<Rightarrow>
          (case find_header lines of
             ((num_v, num_e), ls) \<Rightarrow>
               if num_v = 0 then Inl InvalidHeader
               else (case Graph_ctor num_v of
                       Inl e \<Rightarrow> Inl e
                     | Inr g \<Rightarrow> Inr (edge_loop uninit 0 ls g))))"

text \<open>
  \<^verbatim>\<open>load_dimacs_graph\<close> of \<^verbatim>\<open>dataset_taskflow_greedy_weight_neighborhood.cc\<close> (and of the two
  profiling programs): the same, without the test of the vertex count.
\<close>

definition load_dimacs_graph_weight_neighborhood ::
    "(nat \<Rightarrow> int \<times> int) \<Rightarrow> string list option \<Rightarrow> failure + Graph" where
  "load_dimacs_graph_weight_neighborhood uninit file =
     (case file of
        None \<Rightarrow> Inl CannotOpenFile
      | Some lines \<Rightarrow>
          (case find_header lines of
             ((num_v, num_e), ls) \<Rightarrow>
               (case Graph_ctor num_v of
                  Inl e \<Rightarrow> Inl e
                | Inr g \<Rightarrow> Inr (edge_loop uninit 0 ls g))))"

text \<open>Contents for the uninitialised variables used in the worked examples.\<close>

definition zero_uninit :: "nat \<Rightarrow> int \<times> int" where
  "zero_uninit k = (0, 0)"

section \<open>The random-graph generator\<close>

text \<open>
  \<^verbatim>\<open>create_random_graph\<close> of \<^verbatim>\<open>compare_greedy_mel.cc\<close>. The nested loops visit the pairs
  \<open>(i, j)\<close> with \<open>0 \<le> i < j < num_vertices\<close> in lexicographic order and draw one number
  per pair; \<open>draws k\<close> is the \<open>k\<close>-th value of \<^verbatim>\<open>dis(gen)\<close>. The comparison of two
  \<^verbatim>\<open>double\<close>s is the comparison of the numbers they denote.
\<close>

definition vertex_pairs :: "int \<Rightarrow> (int \<times> int) list" where
  "vertex_pairs n = concat (map (\<lambda>i. map (\<lambda>j. (int i, int j)) [Suc i..<nat n]) [0..<nat n])"

fun pair_loop :: "real \<Rightarrow> (nat \<Rightarrow> real) \<Rightarrow> nat \<Rightarrow> (int \<times> int) list \<Rightarrow> Graph \<Rightarrow> Graph option" where
  "pair_loop p draws k [] g = Some g"
| "pair_loop p draws k ((i, j) # ps) g =
     (if draws k < p then
        (case add_edge_unchecked i j g of
           None \<Rightarrow> None
         | Some g' \<Rightarrow> pair_loop p draws (Suc k) ps g')
      else pair_loop p draws (Suc k) ps g)"

definition create_random_graph :: "int \<Rightarrow> real \<Rightarrow> (nat \<Rightarrow> real) \<Rightarrow> failure + Graph" where
  "create_random_graph num_v edge_probability draws =
     (case Graph_ctor num_v of
        Inl e \<Rightarrow> Inl e
      | Inr g \<Rightarrow>
          (case pair_loop edge_probability draws 0 (vertex_pairs num_v) g of
             None \<Rightarrow> Inl UndefinedBehaviour
           | Some g' \<Rightarrow> Inr g'))"

text \<open>No vertex is its own neighbour.\<close>

definition no_self_loops :: "Graph \<Rightarrow> bool" where
  "no_self_loops g \<longleftrightarrow> (\<forall>i \<in> set [0..<length (adj_list g)]. int i \<notin> adj_list g ! i)"

text \<open>No data line of the second loop hands the same vertex twice to \<^verbatim>\<open>add_edge\<close>.\<close>

fun no_loop_lines :: "(nat \<Rightarrow> int \<times> int) \<Rightarrow> nat \<Rightarrow> string list \<Rightarrow> bool" where
  "no_loop_lines uninit k [] = True"
| "no_loop_lines uninit k (line # ls) =
     ((case data_line (uninit k) line of None \<Rightarrow> True | Some (u, v) \<Rightarrow> u \<noteq> v) \<and>
      no_loop_lines uninit (Suc k) ls)"

section \<open>Neighbourhood-restricted trials\<close>

text \<open>
  \<^verbatim>\<open>main\<close> of \<^verbatim>\<open>dataset_taskflow_greedy_weight_neighborhood.cc\<close> computes the degree of every
  vertex once, before the trials.
\<close>

definition global_degrees :: "Graph \<Rightarrow> int list" where
  "global_degrees g = map (\<lambda>i. get_degree g (int i)) [0..<nat (num_vertices g)]"

text \<open>
  One trial of that program, after the seed vertex has been drawn. \<open>noise k\<close> is the
  \<open>k\<close>-th value of \<^verbatim>\<open>noise_dist(gen)\<close>, one per neighbour in iteration order. The score
  \<^verbatim>\<open>global_degrees[u] + noise\<close> is a \<^verbatim>\<open>double\<close>; here it is the exact sum, which may order
  two candidates differently from the rounded one but visits the same candidates.
  \<^verbatim>\<open>std::sort\<close> over the reverse iterators leaves the pairs in descending order; they are
  pairwise different. \<^verbatim>\<open>global_degrees[u]\<close> outside the vector is undefined behaviour.
\<close>

definition trial_weight_neighborhood ::
    "Graph \<Rightarrow> (int set \<Rightarrow> int list) \<Rightarrow> int list \<Rightarrow> (nat \<Rightarrow> real) \<Rightarrow> int \<Rightarrow> int list option" where
  "trial_weight_neighborhood g enum degs noise seed_vertex =
     (let neighbors = get_neighbors g enum seed_vertex
      in if \<exists>u \<in> set neighbors. \<not> (0 \<le> u \<and> nat u < length degs) then None
         else
           (let weighted_candidates =
                  map (\<lambda>(k, u). (real_of_int (degs ! nat u) + noise k, u)) (enumerate 0 neighbors);
                search_order = map snd (rev (sort weighted_candidates))
            in case find_greedy_max_clique g search_order of
                 None \<Rightarrow> None
               | Some local_clique \<Rightarrow> Some (local_clique @ [seed_vertex])))"

text \<open>
  \<^verbatim>\<open>find_greedy_clique_in_subset\<close> of \<^verbatim>\<open>max_clique_random_neighborhood.cc\<close> first sorts the
  candidates with the comparator \<^verbatim>\<open>adj_list_[a].size() > adj_list_[b].size()\<close>.
  \<^verbatim>\<open>std::sort\<close> is not stable, so the order among candidates of equal degree is not
  determined by the source: the sorted vector is an argument, and \<open>is_sorted_by_degree\<close>
  says what \<^verbatim>\<open>std::sort\<close> guarantees of it.
\<close>

definition is_sorted_by_degree :: "Graph \<Rightarrow> int list \<Rightarrow> int list \<Rightarrow> bool" where
  "is_sorted_by_degree g candidates sorted_candidates \<longleftrightarrow>
     mset sorted_candidates = mset candidates \<and>
     sorted_wrt (\<lambda>a b. \<not> card (adj_list g ! nat b) > card (adj_list g ! nat a)) sorted_candidates"

definition find_greedy_clique_in_subset :: "Graph \<Rightarrow> int list \<Rightarrow> int list option" where
  "find_greedy_clique_in_subset g sorted_candidates =
     (if \<exists>a \<in> set sorted_candidates. \<not> in_vector g a then None
      else greedy_loop g sorted_candidates [])"

text \<open>One trial of \<^verbatim>\<open>max_clique_random_neighborhood.cc\<close>, after the seed has been drawn.\<close>

definition trial_random_neighborhood :: "Graph \<Rightarrow> int list \<Rightarrow> int \<Rightarrow> int list option" where
  "trial_random_neighborhood g sorted_candidates seed_vertex =
     (case find_greedy_clique_in_subset g sorted_candidates of
        None \<Rightarrow> None
      | Some local_clique \<Rightarrow> Some (local_clique @ [seed_vertex]))"

text \<open>What the specification asks of the clique of a trial with seed \<open>s\<close>.\<close>

definition seeded_clique :: "Graph \<Rightarrow> int list \<Rightarrow> int \<Rightarrow> int list \<Rightarrow> bool" where
  "seeded_clique g neighbors s c \<longleftrightarrow>
     s \<in> set c \<and> (\<forall>v \<in> set c. v \<noteq> s \<longrightarrow> v \<in> set neighbors) \<and> pairwise_adjacent g c"

section \<open>Inputs of the worked examples\<close>

text \<open>Scenario A as a DIMACS file (vertices are 1-based in the file).\<close>

definition scenario_A_file :: "string list" where
  "scenario_A_file =
     [''c scenario A'', ''p edge 4 4'', ''e 1 2'', ''e 1 3'', ''e 2 3'', ''e 3 4'']"

text \<open>An iteration order for neighbour sets of vertices below 8: ascending.\<close>

definition enum_ascending :: "int set \<Rightarrow> int list" where
  "enum_ascending S = filter (\<lambda>v. v \<in> S) (map int [0..<8])"

text \<open>A sequence of draws: the second is 0.9, all others are 0.1.\<close>

definition example_draws :: "nat \<Rightarrow> real" where
  "example_draws k = (if k = 1 then 9 / 10 else 1 / 10)"

text \<open>A noise sequence: the first draw is -2, all others are 0.5.\<close>

definition example_noise :: "nat \<Rightarrow> real" where
  "example_noise k = (if k = 0 then - 2 else 1 / 2)"

section \<open>The best-clique holder\<close>

text \<open>
  In \<^verbatim>\<open>dataset_taskflow_greedy.cc\<close> every trial ends with
  \<^verbatim>\<open>lock_guard lock(mtx); if (current_clique.size() > best_clique.size()) best_clique = move(current_clique);\<close>.
  The mutex makes these blocks run one after another in some order; a run is the list of
  the trials' cliques in that order, starting from the empty \<^verbatim>\<open>best_clique\<close>.
\<close>

definition offer_locked :: "int list \<Rightarrow> int list \<Rightarrow> int list" where
  "offer_locked best_clique current_clique =
     (if length current_clique > length best_clique then current_clique else best_clique)"

definition run_locked :: "int list list \<Rightarrow> int list" where
  "run_locked cliques = foldl offer_locked [] cliques"

text \<open>
  In \<^verbatim>\<open>dataset_taskflow_greedy_weight_neighborhood.cc\<close> the block is guarded by a relaxed load
  of the atomic \<^verbatim>\<open>max_size\<close>, which is only written inside the mutex. The load is sequenced
  before the trial's own critical section, so it returns the initial 0 or a value stored by
  an earlier critical section, not necessarily the latest: \<open>max_size_stores\<close> keeps all of
  them (latest first) and \<open>seen\<close> is the value the load returned.
\<close>

record aggregator =
  best_clique :: "int list"
  max_size_stores :: "nat list"

definition aggregator_init :: aggregator where
  "aggregator_init = \<lparr>best_clique = [], max_size_stores = [0]\<rparr>"

definition offer_atomic :: "aggregator \<Rightarrow> nat \<times> int list \<Rightarrow> aggregator" where
  "offer_atomic a t =
     (case t of (seen, local_clique) \<Rightarrow>
        if length local_clique > seen then
          (if length local_clique > length (best_clique a) then
             \<lparr>best_clique = local_clique,
              max_size_stores = length local_clique # max_size_stores a\<rparr>
           else a)
        else a)"

definition run_atomic :: "(nat \<times> int list) list \<Rightarrow> aggregator" where
  "run_atomic trials = foldl offer_atomic aggregator_init trials"

text \<open>Every load of a run returned a value that the atomic had held by then.\<close>

fun loads_possible :: "aggregator \<Rightarrow> (nat \<times> int list) list \<Rightarrow> bool" where
  "loads_possible a [] = True"
| "loads_possible a (t # ts) =
     (fst t \<in> set (max_size_stores a) \<and> loads_possible (offer_atomic a t) ts)"

text \<open>The size of the largest clique among the trial outputs (0 when there is none).\<close>

fun largest_size :: "int list list \<Rightarrow> nat" where
  "largest_size [] = 0"
| "largest_size (c # cs) = max (length c) (largest_size cs)"

text \<open>The invariant of the holder: no stored size exceeds the size of the held clique.\<close>

definition stores_below :: "aggregator \<Rightarrow> bool" where
  "stores_below a \<longleftrightarrow> (\<forall>s \<in> set (max_size_stores a). s \<le> length (best_clique a))"

section \<open>Properties of the graph and of the greedy extender\<close>

lemma can_add_in_vector:
  "in_vector g u \<Longrightarrow> can_add g u c = Some (\<forall>v \<in> set c. v \<in> adj_list g ! nat u)"
  by (induction c) (auto simp: is_adjacent_def split: bool.splits)

lemma greedy_loop_append:
  "greedy_loop g (xs @ ys) c =
     (case greedy_loop g xs c of None \<Rightarrow> None | Some c' \<Rightarrow> greedy_loop g ys c')"
  by (induction xs arbitrary: c) (auto split: option.splits)

lemma greedy_loop_foldl:
  "\<forall>u \<in> set xs. in_vector g u \<Longrightarrow>
   greedy_loop g xs c =
     Some (foldl (\<lambda>c u. if \<forall>v \<in> set c. v \<in> adj_list g ! nat u then c @ [u] else c) c xs)"
  by (induction xs arbitrary: c) (auto simp: can_add_in_vector)

lemma graph_inv_sym:
  "graph_inv g \<Longrightarrow> in_vector g u \<Longrightarrow> v \<in> adj_list g ! nat u \<Longrightarrow>
   in_vector g v \<and> u \<in> adj_list g ! nat v"
proof -
  assume inv: "graph_inv g" and u: "in_vector g u" and v: "v \<in> adj_list g ! nat u"
  from u have "nat u \<in> set [0..<length (adj_list g)]"
    by (simp add: in_vector_def)
  with inv have "\<forall>w \<in> adj_list g ! nat u.
      0 \<le> w \<and> nat w < length (adj_list g) \<and> int (nat u) \<in> adj_list g ! nat w"
    unfolding graph_inv_def by blast
  with v have "0 \<le> v \<and> nat v < length (adj_list g) \<and> int (nat u) \<in> adj_list g ! nat v"
    by blast
  with u show ?thesis by (simp add: in_vector_def)
qed

lemma foldl_step_subset:
  "set (foldl (\<lambda>c u. if P c u then c @ [u] else c) c xs) \<subseteq> set c \<union> set xs"
proof (induction xs arbitrary: c)
  case Nil
  then show ?case by simp
next
  case (Cons x xs)
  have "set (foldl (\<lambda>c u. if P c u then c @ [u] else c) (if P c x then c @ [x] else c) xs)
          \<subseteq> set (if P c x then c @ [x] else c) \<union> set xs"
    by (rule Cons.IH)
  then show ?case by (auto split: if_splits)
qed

lemma foldl_step_pairwise:
  assumes "graph_inv g" "\<forall>u \<in> set xs. in_vector g u" "\<forall>u \<in> set c. in_vector g u"
    "pairwise_adjacent g c"
  shows "pairwise_adjacent g
     (foldl (\<lambda>c u. if \<forall>v \<in> set c. v \<in> adj_list g ! nat u then c @ [u] else c) c xs)"
  using assms(2-)
proof (induction xs arbitrary: c)
  case Nil
  then show ?case by simp
next
  case (Cons x xs)
  show ?case
  proof (cases "\<forall>v \<in> set c. v \<in> adj_list g ! nat x")
    case True
    have "pairwise_adjacent g (c @ [x])"
      using Cons.prems True graph_inv_sym[OF assms(1), of x]
      by (auto simp: pairwise_adjacent_def is_adjacent_def)
    moreover have "\<forall>u \<in> set (c @ [x]). in_vector g u"
      using Cons.prems by simp
    ultimately have "pairwise_adjacent g
      (foldl (\<lambda>c u. if \<forall>v \<in> set c. v \<in> adj_list g ! nat u then c @ [u] else c) (c @ [x]) xs)"
      using Cons.IH[of "c @ [x]"] Cons.prems by simp
    with True show ?thesis by simp
  next
    case False
    have "pairwise_adjacent g
      (foldl (\<lambda>c u. if \<forall>v \<in> set c. v \<in> adj_list g ! nat u then c @ [u] else c) c xs)"
      using Cons.IH[of c] Cons.prems by simp
    with False show ?thesis by auto
  qed
qed

lemma in_vector_iff: "graph_inv g \<Longrightarrow> in_vector g u \<longleftrightarrow> 0 \<le> u \<and> u < num_vertices g"
  by (auto simp: graph_inv_def in_vector_def)

lemma find_greedy_eq_spec:
  assumes "\<forall>u \<in> set order. in_vector g u"
  shows "find_greedy_max_clique g order = Some (greedy_spec (\<lambda>u v. v \<in> adj_list g ! nat u) order)"
  using greedy_loop_foldl[OF assms, of "[]"]
  by (simp add: find_greedy_max_clique_def greedy_spec_def)

lemma greedy_spec_pairwise:
  assumes "graph_inv g" "\<forall>u \<in> set order. in_vector g u"
  shows "pairwise_adjacent g (greedy_spec (\<lambda>u v. v \<in> adj_list g ! nat u) order)"
  unfolding greedy_spec_def
  using foldl_step_pairwise[OF assms, of "[]"] by (simp add: pairwise_adjacent_def)

text \<open>
  Claim C1. For a graph satisfying the class invariant and an ordering of vertices in
  \<open>[0, N)\<close>, the greedy extender returns a clique, and after any number \<open>k\<close> of
  iterations of its outer loop the clique built so far (from which the remaining iterations
  produce the returned value) is pairwise adjacent: \<^verbatim>\<open>is_adjacent(u, v)\<close> holds for all
  distinct members \<open>u\<close>, \<open>v\<close>. With \<open>k = length order\<close> this is the returned clique.
\<close>

theorem greedy_clique_pairwise_adjacent:
  assumes "graph_inv g"
    and "\<forall>u \<in> set order. 0 \<le> u \<and> u < num_vertices g"
    and "k \<le> length order"
  shows "\<exists>c. greedy_loop g (take k order) [] = Some c \<and>
             find_greedy_max_clique g order = greedy_loop g (drop k order) c \<and>
             pairwise_adjacent g c"
proof -
  have inv: "\<forall>u \<in> set order. in_vector g u"
    using assms(1,2) by (simp add: in_vector_iff)
  then have pre: "\<forall>u \<in> set (take k order). in_vector g u"
    by (meson in_set_takeD)
  let ?c = "greedy_spec (\<lambda>u v. v \<in> adj_list g ! nat u) (take k order)"
  have 1: "greedy_loop g (take k order) [] = Some ?c"
    using find_greedy_eq_spec[OF pre] by (simp add: find_greedy_max_clique_def)
  have "greedy_loop g (take k order @ drop k order) [] = greedy_loop g (drop k order) ?c"
    by (simp only: greedy_loop_append 1 option.case)
  then have 2: "find_greedy_max_clique g order = greedy_loop g (drop k order) ?c"
    by (simp add: find_greedy_max_clique_def)
  from 1 2 greedy_spec_pairwise[OF assms(1) pre] show ?thesis by blast
qed

lemma scenario_A_eq:
  "scenario_A = \<lparr>num_vertices = 4, adj_list = [{1, 2}, {0, 2}, {0, 1, 3}, {2}]\<rparr>"
  by (auto simp: scenario_A_def add_edge_def Let_def eval_nat_numeral)

lemma scenario_A_inv: "graph_inv scenario_A"
  unfolding graph_inv_def scenario_A_eq
  by (simp add: upt_rec[of 0] upt_rec[of 1] upt_rec[of 2] upt_rec[of 3] upt_rec[of 4] nth_Cons')

lemma foldl_step_mono:
  "set c \<subseteq> set (foldl (\<lambda>c u. if P c u then c @ [u] else c) c xs)"
proof (induction xs arbitrary: c)
  case Nil
  then show ?case by simp
next
  case (Cons x xs)
  have "set (if P c x then c @ [x] else c)
          \<subseteq> set (foldl (\<lambda>c u. if P c u then c @ [u] else c) (if P c x then c @ [x] else c) xs)"
    by (rule Cons.IH)
  then show ?case by (auto split: if_splits)
qed

lemma foldl_step_maximal:
  "u \<in> set xs \<Longrightarrow>
   u \<notin> set (foldl (\<lambda>c u. if \<forall>v \<in> set c. adj u v then c @ [u] else c) c xs) \<Longrightarrow>
   \<exists>v \<in> set (foldl (\<lambda>c u. if \<forall>v \<in> set c. adj u v then c @ [u] else c) c xs). \<not> adj u v"
proof (induction xs arbitrary: c)
  case Nil
  then show ?case by simp
next
  case (Cons x xs)
  let ?step = "\<lambda>c u. if \<forall>v \<in> set c. adj u v then c @ [u] else c"
  let ?c' = "?step c x"
  have res: "foldl ?step c (x # xs) = foldl ?step ?c' xs" by simp
  have mono: "set ?c' \<subseteq> set (foldl ?step ?c' xs)" by (rule foldl_step_mono)
  show ?case
  proof (cases "u \<in> set xs")
    case True
    have "u \<notin> set (foldl ?step ?c' xs)"
      using Cons.prems(2) by simp
    from Cons.IH[OF True this] show ?thesis by simp
  next
    case False
    with Cons.prems(1) have ux: "u = x" by simp
    from Cons.prems(2) have "x \<notin> set (foldl ?step ?c' xs)" unfolding ux by simp
    with mono have nin: "x \<notin> set ?c'" by blast
    then obtain v where v: "v \<in> set c" "\<not> adj x v" by (auto split: if_splits)
    with nin have "?c' = c" by auto
    with v mono have "v \<in> set (foldl ?step ?c' xs)" by auto
    with v(2) have "\<exists>v \<in> set (foldl ?step ?c' xs). \<not> adj x v" by blast
    then show ?thesis unfolding ux by simp
  qed
qed

text \<open>
  Claim C2. On an ordering of in-range vertices \<^verbatim>\<open>find_greedy_max_clique\<close> returns exactly
  the result of the left-to-right scan of the specification (start empty, append a vertex
  iff it is adjacent to every current member, never revisit), and the result is maximal
  relative to the ordering: every vertex of the ordering that is not in the returned clique
  fails to be adjacent to some member of it.
\<close>

theorem greedy_scan_maximal:
  assumes "length (adj_list g) = nat (num_vertices g)"
    and "\<forall>u \<in> set order. 0 \<le> u \<and> u < num_vertices g"
  shows "\<exists>c. find_greedy_max_clique g order = Some c \<and>
             c = greedy_spec (\<lambda>u v. is_adjacent g u v = Some True) order \<and>
             (\<forall>u \<in> set order. u \<notin> set c \<longrightarrow>
                \<not> (\<forall>v \<in> set c. is_adjacent g u v = Some True))"
proof -
  have inv: "\<forall>u \<in> set order. in_vector g u"
    using assms by (auto simp: in_vector_def)
  have "foldl (\<lambda>c u. if \<forall>v \<in> set c. v \<in> adj_list g ! nat u then c @ [u] else c) c order
      = foldl (\<lambda>c u. if \<forall>v \<in> set c. is_adjacent g u v = Some True then c @ [u] else c) c order" for c
    using inv by (induction order arbitrary: c) (auto simp: is_adjacent_def)
  then have eq: "greedy_spec (\<lambda>u v. v \<in> adj_list g ! nat u) order
      = greedy_spec (\<lambda>u v. is_adjacent g u v = Some True) order"
    by (simp add: greedy_spec_def)
  have 1: "find_greedy_max_clique g order
             = Some (greedy_spec (\<lambda>u v. is_adjacent g u v = Some True) order)"
    using find_greedy_eq_spec[OF inv] eq by simp
  have 2: "\<forall>u \<in> set order. u \<notin> set (greedy_spec (\<lambda>u v. is_adjacent g u v = Some True) order) \<longrightarrow>
      \<not> (\<forall>v \<in> set (greedy_spec (\<lambda>u v. is_adjacent g u v = Some True) order).
            is_adjacent g u v = Some True)"
    unfolding greedy_spec_def
    using foldl_step_maximal[of _ order "\<lambda>u v. is_adjacent g u v = Some True" "[]"] by blast
  from 1 2 show ?thesis by blast
qed

theorem greedy_clique_pairwise_adjacent_witness:
  "graph_inv scenario_A \<and>
   (2::nat) \<le> length [2, 0, 1, 3 :: int] \<and>
   greedy_loop scenario_A (take 2 [2, 0, 1, 3]) [] = Some [2, 0] \<and>
   find_greedy_max_clique scenario_A [2, 0, 1, 3] = greedy_loop scenario_A (drop 2 [2, 0, 1, 3]) [2, 0] \<and>
   pairwise_adjacent scenario_A [2, 0]"
proof -
  have h1: "graph_inv scenario_A" by (rule scenario_A_inv)
  have h2: "\<forall>u \<in> set [2, 0, 1, 3]. 0 \<le> u \<and> u < num_vertices scenario_A"
    by (simp add: scenario_A_eq)
  have h3: "(2::nat) \<le> length [2, 0, 1, 3 :: int]" by simp
  have ev: "greedy_loop scenario_A (take 2 [2, 0, 1, 3]) [] = Some [2, 0]"
    by (simp add: scenario_A_eq is_adjacent_def in_vector_def eval_nat_numeral)
  from greedy_clique_pairwise_adjacent[OF h1 h2 h3] ev h1 h2 h3 show ?thesis by auto
qed

theorem greedy_scan_maximal_witness:
  "length (adj_list scenario_A) = nat (num_vertices scenario_A) \<and>
   find_greedy_max_clique scenario_A [3, 2, 0, 1] = Some [3, 2] \<and>
   greedy_spec (\<lambda>u v. is_adjacent scenario_A u v = Some True) [3, 2, 0, 1] = [3, 2] \<and>
   is_adjacent scenario_A 0 3 \<noteq> Some True \<and> is_adjacent scenario_A 1 3 \<noteq> Some True"
proof -
  have h1: "length (adj_list scenario_A) = nat (num_vertices scenario_A)"
    by (simp add: scenario_A_eq)
  have h2: "\<forall>u \<in> set [3, 2, 0, 1]. 0 \<le> u \<and> u < num_vertices scenario_A"
    by (simp add: scenario_A_eq)
  have ev: "find_greedy_max_clique scenario_A [3, 2, 0, 1] = Some [3, 2]"
    by (simp add: find_greedy_max_clique_def scenario_A_eq is_adjacent_def in_vector_def)
  have ad: "is_adjacent scenario_A 0 3 \<noteq> Some True \<and> is_adjacent scenario_A 1 3 \<noteq> Some True"
    by (simp add: scenario_A_eq is_adjacent_def in_vector_def)
  from greedy_scan_maximal[OF h1 h2] ev ad h1 h2 show ?thesis by auto
qed

section \<open>Properties of the degree-descending ordering\<close>

lemma degree_desc_before_key: "degree_desc_before g a b \<longleftrightarrow> degree_key g a < degree_key g b"
  by (auto simp: degree_desc_before_def degree_key_def)

lemma degrees_eq_keys:
  "map (\<lambda>i. (- int (card (adj_list g ! i)), int i)) [0..<nat (num_vertices g)]
     = map (degree_key g) (map int [0..<nat (num_vertices g)])"
  by (auto simp: degree_key_def get_degree_def)

lemma map_key_snd:
  assumes "set ks \<subseteq> range (degree_key g)"
  shows "map (degree_key g) (map snd ks) = ks"
  using assms by (induction ks) (auto simp: degree_key_def)

lemma snd_key: "map snd (map (degree_key g) vs) = vs"
  by (induction vs) (auto simp: degree_key_def)

lemma inj_key: "inj (degree_key g)"
  by (auto simp: inj_on_def degree_key_def)

lemma sorted_by_degree_props:
  fixes g defines "vs \<equiv> map int [0..<nat (num_vertices g)]"
  defines "r \<equiv> get_vertices_sorted_by_degree g"
  shows "mset r = mset vs"
    and "sorted_wrt (degree_desc_before g) r"
    and "mset ys = mset vs \<Longrightarrow> sorted_wrt (degree_desc_before g) ys \<Longrightarrow> ys = r"
proof -
  let ?ks = "sort (map (degree_key g) vs)"
  have r: "r = map snd ?ks"
    by (simp add: r_def get_vertices_sorted_by_degree_def degrees_eq_keys vs_def)
  have sub: "set ?ks \<subseteq> range (degree_key g)" by auto
  have kr: "map (degree_key g) r = ?ks"
    unfolding r by (rule map_key_snd[OF sub])
  have dvs: "distinct vs" by (simp add: vs_def distinct_map inj_on_def)
  have dks: "distinct ?ks" using dvs inj_key[of g]
    by (simp add: distinct_map inj_on_def)
  have "mset r = mset (map snd (map (degree_key g) vs))"
    unfolding r by (simp del: map_map)
  then show m: "mset r = mset vs" by (simp only: snd_key)
  have "sorted_wrt (<) ?ks" using dks by (simp add: strict_sorted_iff)
  then have "sorted_wrt (<) (map (degree_key g) r)" by (simp only: kr)
  then show "sorted_wrt (degree_desc_before g) r"
    by (simp add: sorted_wrt_map degree_desc_before_key[abs_def])
  assume ys: "mset ys = mset vs" and sy: "sorted_wrt (degree_desc_before g) ys"
  from sy have "sorted_wrt (<) (map (degree_key g) ys)"
    by (simp add: sorted_wrt_map degree_desc_before_key[abs_def])
  then have 1: "sorted (map (degree_key g) ys)" "distinct (map (degree_key g) ys)"
    by (simp_all add: strict_sorted_iff)
  have "set ys = set vs" using ys by (metis set_mset_mset)
  then have 2: "set (map (degree_key g) ys) = set ?ks" by simp
  have "map (degree_key g) ys = ?ks"
    by (rule sorted_distinct_set_unique[OF 1 _ dks 2]) simp
  then have "map snd (map (degree_key g) ys) = map snd ?ks" by simp
  then show "ys = r" by (simp only: snd_key r)
qed

lemma scenario_A_order: "get_vertices_sorted_by_degree scenario_A = [2, 0, 1, 3]"
  by (simp add: get_vertices_sorted_by_degree_def scenario_A_eq eval_nat_numeral upt_rec)

lemma scenario_A_greedy: "find_greedy_max_clique scenario_A [2, 0, 1, 3] = Some [2, 0, 1]"
  by (simp add: find_greedy_max_clique_def scenario_A_eq is_adjacent_def in_vector_def)

text \<open>
  Claim C5. For every graph satisfying the class invariant,
  \<^verbatim>\<open>get_vertices_sorted_by_degree\<close> lists each of the \<open>N\<close> vertices once, in
  non-increasing degree with ties in ascending vertex identifier. It takes the graph as its
  only input (no random source), and its result is the only list with these two
  properties, so any two invocations agree on the ordering and on the greedy clique
  computed from it.
\<close>

theorem degree_descending_ordering:
  assumes "graph_inv g"
  shows "mset (get_vertices_sorted_by_degree g) = mset (map int [0..<nat (num_vertices g)]) \<and>
         sorted_wrt (degree_desc_before g) (get_vertices_sorted_by_degree g) \<and>
         (\<forall>ys. mset ys = mset (map int [0..<nat (num_vertices g)]) \<and>
               sorted_wrt (degree_desc_before g) ys \<longrightarrow>
               ys = get_vertices_sorted_by_degree g \<and>
               find_greedy_max_clique g ys =
                 find_greedy_max_clique g (get_vertices_sorted_by_degree g))"
  using sorted_by_degree_props[where g = g] by blast

theorem degree_descending_ordering_witness:
  "graph_inv scenario_A \<and>
   mset [2, 0, 1, 3] = mset (map int [0..<nat (num_vertices scenario_A)]) \<and>
   sorted_wrt (degree_desc_before scenario_A) [2, 0, 1, 3] \<and>
   get_degree scenario_A 2 = 3 \<and> get_degree scenario_A 0 = 2 \<and>
   get_degree scenario_A 1 = 2 \<and> get_degree scenario_A 3 = 1"
proof -
  have d: "get_degree scenario_A 2 = 3 \<and> get_degree scenario_A 0 = 2 \<and>
      get_degree scenario_A 1 = 2 \<and> get_degree scenario_A 3 = 1"
    by (simp add: get_degree_def scenario_A_eq)
  from degree_descending_ordering[OF scenario_A_inv] d scenario_A_inv show ?thesis
    by (simp add: scenario_A_order)
qed

text \<open>
  Claim C6. Scenario A: on the graph with vertices \<open>0, \<dots>, 3\<close> and edges 0-1, 0-2, 1-2, 2-3
  the degrees are 2, 2, 3, 1, the degree ordering is \<open>[2, 0, 1, 3]\<close>, and the greedy
  extender on it adds 2, then 0, then 1, rejects 3 and returns the clique \<open>{0, 1, 2}\<close> of
  size 3.
\<close>

theorem scenario_A_degree_order_and_clique:
  "Graph_ctor 4 = Inr \<lparr>num_vertices = 4, adj_list = replicate 4 {}\<rparr> \<and>
   map (get_degree scenario_A) [0, 1, 2, 3] = [2, 2, 3, 1] \<and>
   get_vertices_sorted_by_degree scenario_A = [2, 0, 1, 3] \<and>
   greedy_loop scenario_A [2] [] = Some [2] \<and>
   greedy_loop scenario_A [0] [2] = Some [2, 0] \<and>
   greedy_loop scenario_A [1] [2, 0] = Some [2, 0, 1] \<and>
   can_add scenario_A 3 [2, 0, 1] = Some False \<and>
   greedy_loop scenario_A [3] [2, 0, 1] = Some [2, 0, 1] \<and>
   find_greedy_max_clique scenario_A (get_vertices_sorted_by_degree scenario_A) = Some [2, 0, 1] \<and>
   set [2, 0, 1] = {0, 1, 2 :: int} \<and> length [2, 0, 1 :: int] = 3"
proof -
  have 1: "map (get_degree scenario_A) [0, 1, 2, 3] = [2, 2, 3, 1]"
    by (simp add: get_degree_def scenario_A_eq)
  have 2: "greedy_loop scenario_A [2] [] = Some [2] \<and>
      greedy_loop scenario_A [0] [2] = Some [2, 0] \<and>
      greedy_loop scenario_A [1] [2, 0] = Some [2, 0, 1] \<and>
      can_add scenario_A 3 [2, 0, 1] = Some False \<and>
      greedy_loop scenario_A [3] [2, 0, 1] = Some [2, 0, 1]"
    by (simp add: scenario_A_eq is_adjacent_def in_vector_def)
  have 3: "set [2, 0, 1] = {0, 1, 2 :: int}" by auto
  have 4: "Graph_ctor 4 = Inr \<lparr>num_vertices = 4, adj_list = replicate 4 {}\<rparr>"
    by (simp add: Graph_ctor_def)
  from 1 2 3 4 scenario_A_order scenario_A_greedy show ?thesis by simp
qed

section \<open>Properties of the best-clique holder\<close>

lemma largest_size_ge: "c \<in> set cs \<Longrightarrow> length c \<le> largest_size cs"
  by (induction cs) auto

lemma largest_size_attained:
  "largest_size cs = 0 \<or> (\<exists>c \<in> set cs. length c = largest_size cs)"
  by (induction cs) (auto simp: max_def)

lemma largest_size_set_le:
  assumes "set cs \<subseteq> set cs'"
  shows "largest_size cs \<le> largest_size cs'"
proof -
  from largest_size_attained[of cs] show ?thesis
  proof
    assume "largest_size cs = 0"
    then show ?thesis by simp
  next
    assume "\<exists>c \<in> set cs. length c = largest_size cs"
    then obtain c where "c \<in> set cs" "length c = largest_size cs" by blast
    with assms largest_size_ge[of c cs'] show ?thesis by auto
  qed
qed

lemma largest_size_append: "largest_size (xs @ ys) = max (largest_size xs) (largest_size ys)"
  by (induction xs) (auto simp: max.assoc)

lemma largest_size_mset: "mset cs = mset cs' \<Longrightarrow> largest_size cs = largest_size cs'"
proof -
  assume "mset cs = mset cs'"
  then have "set cs = set cs'" by (metis set_mset_mset)
  then show ?thesis
    using largest_size_set_le[of cs cs'] largest_size_set_le[of cs' cs] by simp
qed

lemma length_offer_locked: "length (offer_locked b c) = max (length b) (length c)"
  by (simp add: offer_locked_def)

lemma length_foldl_offer_locked:
  "length (foldl offer_locked b cs) = max (length b) (largest_size cs)"
  by (induction cs arbitrary: b) (auto simp: length_offer_locked max.assoc)

lemma offer_atomic_step:
  assumes "stores_below a" "fst t \<in> set (max_size_stores a)"
  shows "length (best_clique (offer_atomic a t)) = max (length (best_clique a)) (length (snd t))"
    and "stores_below (offer_atomic a t)"
  using assms by (auto simp: offer_atomic_def stores_below_def split: prod.splits)

lemma length_foldl_offer_atomic:
  "stores_below a \<Longrightarrow> loads_possible a ts \<Longrightarrow>
   length (best_clique (foldl offer_atomic a ts))
     = max (length (best_clique a)) (largest_size (map snd ts))"
proof (induction ts arbitrary: a)
  case Nil
  then show ?case by simp
next
  case (Cons t ts)
  from Cons.prems have t: "fst t \<in> set (max_size_stores a)"
    and rest: "loads_possible (offer_atomic a t) ts" by simp_all
  note st = offer_atomic_step[OF Cons.prems(1) t]
  from Cons.IH[OF st(2) rest] st(1) show ?case by (simp add: max.assoc)
qed

lemma loads_possible_take: "loads_possible a ts \<Longrightarrow> loads_possible a (take k ts)"
proof (induction ts arbitrary: a k)
  case Nil
  then show ?case by simp
next
  case (Cons t ts)
  then show ?case by (cases k) auto
qed

lemma stores_below_init: "stores_below aggregator_init"
  by (simp add: stores_below_def aggregator_init_def)

lemma run_atomic_size:
  "loads_possible aggregator_init ts \<Longrightarrow>
   length (best_clique (run_atomic ts)) = largest_size (map snd ts)"
  using length_foldl_offer_atomic[OF stores_below_init, of ts]
  by (simp add: run_atomic_def aggregator_init_def)

lemma run_locked_size: "length (run_locked cs) = largest_size cs"
  using length_foldl_offer_locked[of "[]" cs] by (simp add: run_locked_def)

lemma largest_size_take_mono: "largest_size (take j cs) \<le> largest_size (take k cs)" if "j \<le> k"
proof -
  from that have "take k cs = take j cs @ take (k - j) (drop j cs)"
    by (metis le_add_diff_inverse take_add)
  then show ?thesis by (simp add: largest_size_append)
qed

lemma largest_size_take_le: "largest_size (take k cs) \<le> largest_size cs"
  using largest_size_take_mono[of k "length cs" cs] by (cases "k \<le> length cs") auto

text \<open>
  Claim C3. Let \<open>ts\<close> be the trials of a run in the order of their critical sections, each
  with the value its relaxed load returned. After any \<open>k\<close> of them the size of the held
  clique is the largest size among the first \<open>k\<close> trial outputs: it never decreases as
  \<open>k\<close> grows, never exceeds the largest size over all outputs, and after all trials equals
  it; any other order of the same outputs ends with the same size. The same holds for the
  holder that only takes the mutex.
\<close>

theorem best_clique_holder_monotone_exact:
  assumes "loads_possible aggregator_init ts"
  shows "(\<forall>j k. j \<le> k \<longrightarrow>
            length (best_clique (run_atomic (take j ts)))
              \<le> length (best_clique (run_atomic (take k ts)))) \<and>
         (\<forall>k. length (best_clique (run_atomic (take k ts))) = largest_size (map snd (take k ts)) \<and>
              length (best_clique (run_atomic (take k ts))) \<le> largest_size (map snd ts)) \<and>
         length (best_clique (run_atomic ts)) = largest_size (map snd ts) \<and>
         (\<forall>ts'. loads_possible aggregator_init ts' \<and> mset (map snd ts') = mset (map snd ts) \<longrightarrow>
              length (best_clique (run_atomic ts')) = length (best_clique (run_atomic ts))) \<and>
         (\<forall>j k. j \<le> k \<longrightarrow>
            length (run_locked (take j (map snd ts))) \<le> length (run_locked (take k (map snd ts)))) \<and>
         length (run_locked (map snd ts)) = largest_size (map snd ts) \<and>
         (\<forall>cs'. mset cs' = mset (map snd ts) \<longrightarrow>
              length (run_locked cs') = length (run_locked (map snd ts)))"
proof -
  have pre: "length (best_clique (run_atomic (take k ts))) = largest_size (take k (map snd ts))" for k
    using run_atomic_size[OF loads_possible_take[OF assms, of k]] by (simp add: take_map)
  have 1: "\<forall>j k. j \<le> k \<longrightarrow>
            length (best_clique (run_atomic (take j ts)))
              \<le> length (best_clique (run_atomic (take k ts)))"
    by (simp add: pre largest_size_take_mono)
  have 2: "\<forall>k. length (best_clique (run_atomic (take k ts))) = largest_size (map snd (take k ts)) \<and>
              length (best_clique (run_atomic (take k ts))) \<le> largest_size (map snd ts)"
    using pre largest_size_take_le[of _ "map snd ts"] by (simp add: take_map)
  have 3: "length (best_clique (run_atomic ts)) = largest_size (map snd ts)"
    by (rule run_atomic_size[OF assms])
  have 4: "\<forall>ts'. loads_possible aggregator_init ts' \<and> mset (map snd ts') = mset (map snd ts) \<longrightarrow>
              length (best_clique (run_atomic ts')) = length (best_clique (run_atomic ts))"
  proof (intro allI impI)
    fix ts'
    assume a: "loads_possible aggregator_init ts' \<and> mset (map snd ts') = mset (map snd ts)"
    from a have "largest_size (map snd ts') = largest_size (map snd ts)"
      by (intro largest_size_mset) (rule conjunct2)
    moreover from a have "length (best_clique (run_atomic ts')) = largest_size (map snd ts')"
      by (intro run_atomic_size) (rule conjunct1)
    ultimately show "length (best_clique (run_atomic ts')) = length (best_clique (run_atomic ts))"
      using 3 by (simp only:)
  qed
  have 5: "\<forall>j k. j \<le> k \<longrightarrow>
            length (run_locked (take j (map snd ts))) \<le> length (run_locked (take k (map snd ts)))"
    by (simp add: run_locked_size largest_size_take_mono)
  have 6: "length (run_locked (map snd ts)) = largest_size (map snd ts)"
    by (rule run_locked_size)
  have 7: "\<forall>cs'. mset cs' = mset (map snd ts) \<longrightarrow>
              length (run_locked cs') = length (run_locked (map snd ts))"
  proof (intro allI impI)
    fix cs'
    assume "mset cs' = mset (map snd ts)"
    then have "largest_size cs' = largest_size (map snd ts)"
      by (rule largest_size_mset)
    then show "length (run_locked cs') = length (run_locked (map snd ts))"
      by (simp only: run_locked_size)
  qed
  from 1 2 3 4 5 6 7 show ?thesis by blast
qed

theorem best_clique_holder_monotone_exact_witness:
  "loads_possible aggregator_init [(0, [1, 2]), (0, [3]), (2, [4, 5, 6]), (0, [7])] \<and>
   run_atomic [(0, [1, 2]), (0, [3]), (2, [4, 5, 6]), (0, [7])]
     = \<lparr>best_clique = [4, 5, 6], max_size_stores = [3, 2, 0]\<rparr> \<and>
   length (best_clique (run_atomic [(0, [1, 2]), (0, [3]), (2, [4, 5, 6]), (0, [7])])) = 3 \<and>
   largest_size (map snd [(0 :: nat, [1, 2]), (0, [3]), (2, [4, 5, 6]), (0, [7])]) = 3 \<and>
   length (run_locked [[1, 2], [3], [4, 5, 6], [7]]) = 3"
proof -
  have h: "loads_possible aggregator_init [(0, [1, 2]), (0, [3]), (2, [4, 5, 6]), (0, [7])]"
    by (simp add: aggregator_init_def offer_atomic_def)
  have ev: "run_atomic [(0, [1, 2]), (0, [3]), (2, [4, 5, 6]), (0, [7])]
     = \<lparr>best_clique = [4, 5, 6], max_size_stores = [3, 2, 0]\<rparr>"
    by (simp add: run_atomic_def aggregator_init_def offer_atomic_def)
  have ls: "largest_size (map snd [(0 :: nat, [1, 2]), (0, [3]), (2, [4, 5, 6]), (0, [7])]) = 3"
    by simp
  have rl: "length (run_locked [[1, 2], [3], [4, 5, 6], [7]]) = 3"
    by (simp add: run_locked_def offer_locked_def)
  have "length (best_clique (run_atomic [(0, [1, 2]), (0, [3]), (2, [4, 5, 6]), (0, [7])]))
          = largest_size (map snd [(0 :: nat, [1, 2]), (0, [3]), (2, [4, 5, 6]), (0, [7])])"
    by (rule best_clique_holder_monotone_exact[OF h, THEN conjunct2, THEN conjunct2, THEN conjunct1])
  with h ev ls rl show ?thesis by (simp only: simp_thms)
qed

section \<open>Properties of graph construction\<close>

lemma add_edge_out_of_range:
  "u < 0 \<or> num_vertices g \<le> u \<or> v < 0 \<or> num_vertices g \<le> v \<Longrightarrow> add_edge u v g = g"
  by (auto simp: add_edge_def)

lemma add_edge_fields:
  "num_vertices (add_edge u v g) = num_vertices g"
  "length (adj_list (add_edge u v g)) = length (adj_list g)"
  by (auto simp: add_edge_def Let_def)

lemma add_edge_nth:
  assumes "length (adj_list g) = nat (num_vertices g)"
    and "0 \<le> u" "u < num_vertices g" "0 \<le> v" "v < num_vertices g"
    and "i < length (adj_list g)"
  shows "adj_list (add_edge u v g) ! i =
           adj_list g ! i \<union> (if i = nat u then {v} else {}) \<union> (if i = nat v then {u} else {})"
  using assms by (auto simp: add_edge_def Let_def nth_list_update)

lemma graph_inv_add_edge:
  assumes "graph_inv g"
  shows "graph_inv (add_edge u v g)"
proof (cases "0 \<le> u \<and> u < num_vertices g \<and> 0 \<le> v \<and> v < num_vertices g")
  case False
  then have "add_edge u v g = g" by (auto simp: add_edge_def)
  with assms show ?thesis by simp
next
  case True
  from assms have len: "length (adj_list g) = nat (num_vertices g)"
    by (simp add: graph_inv_def)
  have nth: "adj_list (add_edge u v g) ! i =
           adj_list g ! i \<union> (if i = nat u then {v} else {}) \<union> (if i = nat v then {u} else {})"
    if "i < length (adj_list g)" for i
    using add_edge_nth[OF len _ _ _ _ that, of u v] True by blast
  have old: "finite (adj_list g ! i) \<and>
        (\<forall>w \<in> adj_list g ! i. 0 \<le> w \<and> nat w < length (adj_list g) \<and> int i \<in> adj_list g ! nat w)"
    if "i < length (adj_list g)" for i
  proof -
    from that have "i \<in> set [0..<length (adj_list g)]" by simp
    with assms show ?thesis unfolding graph_inv_def by blast
  qed
  have uv: "nat u < length (adj_list g)" "nat v < length (adj_list g)"
    using True len by auto
  have new: "finite (adj_list (add_edge u v g) ! i) \<and>
        (\<forall>w \<in> adj_list (add_edge u v g) ! i.
           0 \<le> w \<and> nat w < length (adj_list g) \<and> int i \<in> adj_list (add_edge u v g) ! nat w)"
    if i: "i < length (adj_list g)" for i
  proof (intro conjI ballI)
    show "finite (adj_list (add_edge u v g) ! i)"
      using old[OF i] by (simp add: nth[OF i])
  next
    fix w assume "w \<in> adj_list (add_edge u v g) ! i"
    then consider "w \<in> adj_list g ! i" | "i = nat u" "w = v" | "i = nat v" "w = u"
      by (auto simp: nth[OF i] split: if_splits)
    then have "0 \<le> w \<and> nat w < length (adj_list g) \<and> int i \<in> adj_list (add_edge u v g) ! nat w"
    proof cases
      case 1
      with old[OF i] have w: "0 \<le> w" "nat w < length (adj_list g)" "int i \<in> adj_list g ! nat w"
        by auto
      then show ?thesis by (simp add: nth[OF w(2)])
    next
      case 2
      with True uv show ?thesis by (simp add: nth[OF uv(2)])
    next
      case 3
      with True uv show ?thesis by (simp add: nth[OF uv(1)])
    qed
    then show "0 \<le> w" "nat w < length (adj_list g)"
      "int i \<in> adj_list (add_edge u v g) ! nat w" by simp_all
  qed
  show ?thesis
    unfolding graph_inv_def add_edge_fields
    using assms new by (simp add: graph_inv_def)
qed

lemma no_self_loops_add_edge:
  assumes "length (adj_list g) = nat (num_vertices g)" "no_self_loops g" "u \<noteq> v"
  shows "no_self_loops (add_edge u v g)"
proof (cases "0 \<le> u \<and> u < num_vertices g \<and> 0 \<le> v \<and> v < num_vertices g")
  case False
  then have "add_edge u v g = g" by (auto simp: add_edge_def)
  with assms show ?thesis by simp
next
  case True
  have "int i \<notin> adj_list (add_edge u v g) ! i" if "i < length (adj_list g)" for i
    using add_edge_nth[OF assms(1) _ _ _ _ that, of u v] True assms(2,3) that
    by (auto simp: no_self_loops_def)
  then show ?thesis by (simp add: no_self_loops_def add_edge_fields)
qed

lemma Graph_ctor_inv:
  assumes "0 \<le> n" "n \<le> 2147483647"
  shows "\<exists>g. Graph_ctor n = Inr g \<and> graph_inv g \<and> no_self_loops g \<and> num_vertices g = n"
  using assms by (simp add: Graph_ctor_def graph_inv_def no_self_loops_def)

lemma Graph_ctor_Inr:
  "Graph_ctor n = Inr g \<Longrightarrow> 0 \<le> n \<and> g = \<lparr>num_vertices = n, adj_list = replicate (nat n) {}\<rparr>"
  by (auto simp: Graph_ctor_def split: if_splits)

lemma edge_loop_inv: "graph_inv g \<Longrightarrow> graph_inv (edge_loop uninit k ls g)"
  by (induction ls arbitrary: k g) (auto simp: graph_inv_add_edge split: option.splits)

lemma graph_inv_len: "graph_inv g \<Longrightarrow> length (adj_list g) = nat (num_vertices g)"
  by (simp add: graph_inv_def)

lemma edge_loop_no_self_loops:
  "graph_inv g \<Longrightarrow> no_self_loops g \<Longrightarrow> no_loop_lines uninit k ls \<Longrightarrow>
   no_self_loops (edge_loop uninit k ls g)"
proof (induction ls arbitrary: k g)
  case Nil
  then show ?case by simp
next
  case (Cons line ls)
  show ?case
  proof (cases "data_line (uninit k) line")
    case None
    with Cons show ?thesis by simp
  next
    case (Some uv)
    obtain u v where uv: "uv = (u, v)" by (cases uv)
    from Cons.prems(3) Some uv have ne: "u \<noteq> v" and rest: "no_loop_lines uninit (Suc k) ls"
      by simp_all
    have "graph_inv (add_edge u v g)" by (rule graph_inv_add_edge[OF Cons.prems(1)])
    moreover have "no_self_loops (add_edge u v g)"
      by (rule no_self_loops_add_edge[OF graph_inv_len[OF Cons.prems(1)] Cons.prems(2) ne])
    ultimately have "no_self_loops (edge_loop uninit (Suc k) ls (add_edge u v g))"
      using rest by (rule Cons.IH)
    with Some uv show ?thesis by simp
  qed
qed

lemma extract_int_range:
  "- 2147483648 \<le> x \<Longrightarrow> x \<le> 2147483647 \<Longrightarrow>
   - 2147483648 \<le> fst (extract_int x s) \<and> fst (extract_int x s) \<le> 2147483647"
  by (simp add: extract_int_def Let_def)

lemma parse_header_range:
  "- 2147483648 \<le> fst (parse_header line) \<and> fst (parse_header line) \<le> 2147483647"
proof -
  obtain temp s1 where 1: "extract_word [] (stringstream line) = (temp, s1)" by force
  obtain format s2 where 2: "extract_word [] s1 = (format, s2)" by force
  obtain nv s3 where 3: "extract_int 0 s2 = (nv, s3)" by force
  obtain ne s4 where 4: "extract_int 0 s3 = (ne, s4)" by force
  have "fst (parse_header line) = nv"
    by (simp add: parse_header_def 1 2 3 4)
  with extract_int_range[of 0 s2] 3 show ?thesis by simp
qed

lemma find_header_range:
  "- 2147483648 \<le> fst (fst (find_header ls)) \<and> fst (fst (find_header ls)) \<le> 2147483647"
  using parse_header_range by (induction ls) auto

lemma loaded_graph_inv:
  assumes "load_dimacs_graph uninit (Some lines) = Inr g \<or>
           load_dimacs_graph_weight_neighborhood uninit (Some lines) = Inr g"
  shows "graph_inv g \<and> g = edge_loop uninit 0 (snd (find_header lines))
           \<lparr>num_vertices = fst (fst (find_header lines)),
            adj_list = replicate (nat (fst (fst (find_header lines)))) {}\<rparr>"
proof -
  obtain nv ne ls where fh: "find_header lines = ((nv, ne), ls)"
    by (metis prod.collapse)
  from find_header_range[of lines] fh have hi: "nv \<le> 2147483647" by simp
  from assms fh obtain g0 where g0: "Graph_ctor nv = Inr g0" and g: "g = edge_loop uninit 0 ls g0"
    by (auto simp: load_dimacs_graph_def load_dimacs_graph_weight_neighborhood_def
             split: if_splits sum.splits)
  from Graph_ctor_Inr[OF g0] have lo: "0 \<le> nv"
    and g0_eq: "g0 = \<lparr>num_vertices = nv, adj_list = replicate (nat nv) {}\<rparr>" by simp_all
  from Graph_ctor_inv[OF lo hi] g0 have "graph_inv g0" by simp
  then have "graph_inv g" unfolding g by (rule edge_loop_inv)
  with g g0_eq fh show ?thesis by simp
qed

lemma add_edge_unchecked_eq:
  assumes "length (adj_list g) = nat (num_vertices g)"
    and "0 \<le> u" "u < num_vertices g" "0 \<le> v" "v < num_vertices g"
  shows "add_edge_unchecked u v g = Some (add_edge u v g)"
  using assms by (auto simp: add_edge_unchecked_def add_edge_def in_vector_def Let_def)

lemma vertex_pairs_range:
  "(i, j) \<in> set (vertex_pairs n) \<Longrightarrow> 0 \<le> i \<and> i < j \<and> j < n"
  by (auto simp: vertex_pairs_def)

lemma pair_loop_inv:
  assumes "graph_inv g" "no_self_loops g"
    and "\<forall>(i, j) \<in> set ps. 0 \<le> i \<and> i < j \<and> j < num_vertices g"
  shows "\<exists>g'. pair_loop p draws k ps g = Some g' \<and> graph_inv g' \<and> no_self_loops g'"
  using assms
proof (induction ps arbitrary: k g)
  case Nil
  then show ?case by simp
next
  case (Cons ij ps)
  obtain i j where ij: "ij = (i, j)" by (cases ij)
  from Cons.prems(3) ij have r: "0 \<le> i" "i < j" "j < num_vertices g"
    and rest: "\<forall>(i, j) \<in> set ps. 0 \<le> i \<and> i < j \<and> j < num_vertices g" by auto
  show ?case
  proof (cases "draws k < p")
    case False
    with Cons.IH[OF Cons.prems(1,2) rest, of "Suc k"] ij show ?thesis by simp
  next
    case True
    have len: "length (adj_list g) = nat (num_vertices g)"
      by (rule graph_inv_len[OF Cons.prems(1)])
    have ae: "add_edge_unchecked i j g = Some (add_edge i j g)"
      using add_edge_unchecked_eq[OF len, of i j] r by simp
    have 1: "graph_inv (add_edge i j g)" by (rule graph_inv_add_edge[OF Cons.prems(1)])
    have 2: "no_self_loops (add_edge i j g)"
      using no_self_loops_add_edge[OF len Cons.prems(2), of i j] r by simp
    have 3: "\<forall>(a, b) \<in> set ps. 0 \<le> a \<and> a < b \<and> b < num_vertices (add_edge i j g)"
      using rest by (simp add: add_edge_fields)
    from Cons.IH[OF 1 2 3, of "Suc k"] True ae ij show ?thesis by simp
  qed
qed

lemma create_random_graph_inv:
  assumes "0 \<le> n" "n \<le> 2147483647"
  shows "\<exists>g. create_random_graph n p draws = Inr g \<and> graph_inv g \<and> no_self_loops g"
proof -
  from Graph_ctor_inv[OF assms] obtain g0 where g0: "Graph_ctor n = Inr g0" "graph_inv g0"
    "no_self_loops g0" "num_vertices g0 = n" by blast
  have "\<forall>(i, j) \<in> set (vertex_pairs n). 0 \<le> i \<and> i < j \<and> j < num_vertices g0"
    using vertex_pairs_range g0(4) by blast
  from pair_loop_inv[OF g0(2,3) this, of p draws 0] g0(1) show ?thesis
    by (auto simp: create_random_graph_def)
qed

lemma graph_inv_symmetric:
  assumes "graph_inv g" "is_adjacent g u v = Some True"
  shows "is_adjacent g v u = Some True"
proof -
  from assms(2) have "in_vector g u" "v \<in> adj_list g ! nat u"
    by (auto simp: is_adjacent_def split: if_splits)
  from graph_inv_sym[OF assms(1) this] show ?thesis by (simp add: is_adjacent_def)
qed

lemma no_self_loops_irreflexive:
  assumes "no_self_loops g"
  shows "is_adjacent g v v \<noteq> Some True"
proof
  assume "is_adjacent g v v = Some True"
  then have v: "0 \<le> v" "nat v < length (adj_list g)" "v \<in> adj_list g ! nat v"
    by (auto simp: is_adjacent_def in_vector_def split: if_splits)
  from v(2) have "nat v \<in> set [0..<length (adj_list g)]" by simp
  with assms have "int (nat v) \<notin> adj_list g ! nat v" unfolding no_self_loops_def by blast
  with v show False by simp
qed

section \<open>Properties of the collaborators\<close>

lemmas stream_defs =
  parse_header_def extract_word_def extract_int_def extract_char_def stringstream_def
  is_space_def is_digit_def digits_value_def data_line_def

lemma scenario_A_load: "load_dimacs_graph zero_uninit (Some scenario_A_file) = Inr scenario_A"
  by (simp add: load_dimacs_graph_def scenario_A_file_def stream_defs zero_uninit_def
      Graph_ctor_def scenario_A_def)

lemma scenario_A_no_loop_lines:
  "no_loop_lines zero_uninit 0 (snd (find_header scenario_A_file))"
  by (simp add: scenario_A_file_def stream_defs zero_uninit_def)

lemma example_random_graph:
  "create_random_graph 3 (1 / 2) example_draws
     = Inr \<lparr>num_vertices = 3, adj_list = [{1}, {0, 2}, {1}]\<rparr>"
  by (auto simp: create_random_graph_def Graph_ctor_def vertex_pairs_def example_draws_def
      add_edge_unchecked_def in_vector_def eval_nat_numeral upt_rec Let_def)

lemma loaded_graph_no_self_loops:
  assumes "load_dimacs_graph uninit (Some lines) = Inr g \<or>
           load_dimacs_graph_weight_neighborhood uninit (Some lines) = Inr g"
    and "no_loop_lines uninit 0 (snd (find_header lines))"
  shows "no_self_loops g"
proof -
  obtain nv ne ls where fh: "find_header lines = ((nv, ne), ls)"
    by (metis prod.collapse)
  from find_header_range[of lines] fh have hi: "nv \<le> 2147483647" by simp
  from assms(1) fh obtain g0 where g0: "Graph_ctor nv = Inr g0" and g: "g = edge_loop uninit 0 ls g0"
    by (auto simp: load_dimacs_graph_def load_dimacs_graph_weight_neighborhood_def
             split: if_splits sum.splits)
  from Graph_ctor_Inr[OF g0] have lo: "0 \<le> nv" by simp
  from Graph_ctor_inv[OF lo hi] g0 have "graph_inv g0" "no_self_loops g0" by simp_all
  moreover from assms(2) fh have "no_loop_lines uninit 0 ls" by simp
  ultimately show ?thesis unfolding g by (rule edge_loop_no_self_loops)
qed

text \<open>
  Claim C9, as amended. Every graph returned by the file loader (either variant) and by the
  random-graph generator has a symmetric adjacency relation. The generator, for every
  vertex count, probability and sequence of draws, returns a graph in which no vertex is
  its own neighbour. The loader does so for the files none of whose data lines hands the
  same vertex twice to \<^verbatim>\<open>add_edge\<close>.
\<close>

theorem collaborator_graphs_symmetric:
  assumes "0 \<le> n" "n \<le> 2147483647"
  shows "(load_dimacs_graph uninit (Some lines) = Inr g \<or>
          load_dimacs_graph_weight_neighborhood uninit (Some lines) = Inr g \<longrightarrow>
            (\<forall>u v. is_adjacent g u v = Some True \<longrightarrow> is_adjacent g v u = Some True) \<and>
            (no_loop_lines uninit 0 (snd (find_header lines)) \<longrightarrow>
               (\<forall>v. is_adjacent g v v \<noteq> Some True))) \<and>
         (\<exists>g'. create_random_graph n p draws = Inr g' \<and>
            (\<forall>u v. is_adjacent g' u v = Some True \<longrightarrow> is_adjacent g' v u = Some True) \<and>
            (\<forall>v. is_adjacent g' v v \<noteq> Some True))"
proof (intro conjI impI)
  assume a: "load_dimacs_graph uninit (Some lines) = Inr g \<or>
             load_dimacs_graph_weight_neighborhood uninit (Some lines) = Inr g"
  have "graph_inv g" by (rule loaded_graph_inv[OF a, THEN conjunct1])
  then show "\<forall>u v. is_adjacent g u v = Some True \<longrightarrow> is_adjacent g v u = Some True"
    using graph_inv_symmetric by blast
  assume "no_loop_lines uninit 0 (snd (find_header lines))"
  from loaded_graph_no_self_loops[OF a this]
  show "\<forall>v. is_adjacent g v v \<noteq> Some True"
    using no_self_loops_irreflexive by blast
next
  from create_random_graph_inv[OF assms, of p draws] obtain g'
    where g': "create_random_graph n p draws = Inr g'" "graph_inv g'" "no_self_loops g'"
    by blast
  from g'(2) have "\<forall>u v. is_adjacent g' u v = Some True \<longrightarrow> is_adjacent g' v u = Some True"
    using graph_inv_symmetric by blast
  moreover from g'(3) have "\<forall>v. is_adjacent g' v v \<noteq> Some True"
    using no_self_loops_irreflexive by blast
  ultimately show "\<exists>g'. create_random_graph n p draws = Inr g' \<and>
            (\<forall>u v. is_adjacent g' u v = Some True \<longrightarrow> is_adjacent g' v u = Some True) \<and>
            (\<forall>v. is_adjacent g' v v \<noteq> Some True)"
    using g'(1) by blast
qed

theorem collaborator_graphs_symmetric_witness:
  "load_dimacs_graph zero_uninit (Some scenario_A_file) = Inr scenario_A \<and>
   no_loop_lines zero_uninit 0 (snd (find_header scenario_A_file)) \<and>
   is_adjacent scenario_A 2 3 = Some True \<and>
   is_adjacent scenario_A 3 2 = Some True \<and>
   is_adjacent scenario_A 3 3 \<noteq> Some True \<and>
   create_random_graph 3 (1 / 2) example_draws
     = Inr \<lparr>num_vertices = 3, adj_list = [{1}, {0, 2}, {1}]\<rparr> \<and>
   is_adjacent \<lparr>num_vertices = 3, adj_list = [{1}, {0, 2}, {1}]\<rparr> 2 1 = Some True \<and>
   is_adjacent \<lparr>num_vertices = 3, adj_list = [{1}, {0, 2}, {1}]\<rparr> 1 1 \<noteq> Some True"
proof -
  have n: "(0::int) \<le> 3" "(3::int) \<le> 2147483647" by simp_all
  note th = collaborator_graphs_symmetric[OF n, of zero_uninit scenario_A_file scenario_A
      "1 / 2" example_draws]
  have a23: "is_adjacent scenario_A 2 3 = Some True"
    by (simp add: scenario_A_eq is_adjacent_def in_vector_def)
  from th scenario_A_load scenario_A_no_loop_lines
  have sym: "\<forall>u v. is_adjacent scenario_A u v = Some True \<longrightarrow> is_adjacent scenario_A v u = Some True"
    and irr: "\<forall>v. is_adjacent scenario_A v v \<noteq> Some True" by blast+
  from th example_random_graph
  have sym': "\<forall>u v. is_adjacent \<lparr>num_vertices = 3, adj_list = [{1}, {0, 2}, {1}]\<rparr> u v = Some True \<longrightarrow>
        is_adjacent \<lparr>num_vertices = 3, adj_list = [{1}, {0, 2}, {1}]\<rparr> v u = Some True"
    and irr': "\<forall>v. is_adjacent \<lparr>num_vertices = 3, adj_list = [{1}, {0, 2}, {1}]\<rparr> v v \<noteq> Some True"
    by auto
  have a12: "is_adjacent \<lparr>num_vertices = 3, adj_list = [{1}, {0, 2}, {1}]\<rparr> 1 2 = Some True"
    by (simp add: is_adjacent_def in_vector_def)
  from sym a23 have "is_adjacent scenario_A 3 2 = Some True" by blast
  moreover from sym' a12
  have "is_adjacent \<lparr>num_vertices = 3, adj_list = [{1}, {0, 2}, {1}]\<rparr> 2 1 = Some True" by blast
  ultimately show ?thesis
    using scenario_A_load scenario_A_no_loop_lines a23 irr irr' example_random_graph by blast
qed

theorem loader_self_loop_counterexample:
  "load_dimacs_graph zero_uninit (Some [''p edge 2 1'', ''e 1 1''])
     = Inr \<lparr>num_vertices = 2, adj_list = [{0}, {}]\<rparr> \<and>
   load_dimacs_graph_weight_neighborhood zero_uninit (Some [''p edge 2 1'', ''e 1 1''])
     = Inr \<lparr>num_vertices = 2, adj_list = [{0}, {}]\<rparr> \<and>
   is_adjacent \<lparr>num_vertices = 2, adj_list = [{0}, {}]\<rparr> 0 0 = Some True"
  by (simp add: load_dimacs_graph_def load_dimacs_graph_weight_neighborhood_def stream_defs
      zero_uninit_def Graph_ctor_def add_edge_def is_adjacent_def in_vector_def eval_nat_numeral)

section \<open>Out-of-range vertices and the header check\<close>

text \<open>
  Claim C10. For a vertex argument \<open>v\<close> outside \<open>[0, N)\<close> the accessors return normally:
  \<^verbatim>\<open>get_neighbors\<close> the empty list, \<^verbatim>\<open>get_degree\<close> 0, and \<^verbatim>\<open>add_edge\<close> with \<open>v\<close> as
  either endpoint the unchanged graph. Each of them tests the range before it indexes the
  vector, so none has a failing branch.
\<close>

theorem accessors_total_out_of_range:
  assumes "v < 0 \<or> num_vertices g \<le> v"
  shows "get_neighbors g enum v = [] \<and> get_degree g v = 0 \<and>
         add_edge v w g = g \<and> add_edge w v g = g"
  using assms by (auto simp: get_neighbors_def get_degree_def add_edge_def)

theorem accessors_total_out_of_range_witness:
  "get_neighbors scenario_A enum_ascending 7 = [] \<and> get_degree scenario_A 7 = 0 \<and>
   add_edge 7 0 scenario_A = scenario_A \<and> add_edge 0 7 scenario_A = scenario_A \<and>
   num_vertices scenario_A = 4"
proof -
  have nv: "num_vertices scenario_A = 4" by (simp add: scenario_A_eq)
  then have "7 < 0 \<or> num_vertices scenario_A \<le> (7::int)" by simp
  from accessors_total_out_of_range[OF this, of enum_ascending 0] nv show ?thesis by simp
qed

text \<open>
  Claim C7, as amended. For a vertex argument outside \<open>[0, N)\<close> the neighbours query
  returns the empty list, which is also its answer for an isolated vertex, and reports
  nothing. An edge insertion with an endpoint outside \<open>[0, N)\<close> is discarded: the loader's
  loop goes on to the next line with the graph unchanged and no failure.
\<close>

theorem out_of_range_silently_discarded:
  assumes "v < 0 \<or> num_vertices g \<le> v"
  shows "get_neighbors g enum v = [] \<and>
         (\<forall>w k line ls.
            data_line (uninit k) line = Some (v, w) \<or> data_line (uninit k) line = Some (w, v) \<longrightarrow>
            edge_loop uninit k (line # ls) g = edge_loop uninit (Suc k) ls g)"
  using assms add_edge_out_of_range[of v g] add_edge_out_of_range[of _ g v]
  by (auto simp: get_neighbors_def)

theorem out_of_range_silently_discarded_witness:
  "num_vertices scenario_A = 4 \<and>
   get_neighbors scenario_A enum_ascending 9 = [] \<and>
   data_line (zero_uninit 0) ''e 1 10'' = Some (0, 9) \<and>
   edge_loop zero_uninit 0 [''e 1 10''] scenario_A = scenario_A"
proof -
  have nv: "num_vertices scenario_A = 4" by (simp add: scenario_A_eq)
  then have h: "9 < 0 \<or> num_vertices scenario_A \<le> (9::int)" by simp
  have dl: "data_line (zero_uninit 0) ''e 1 10'' = Some (0, 9)"
    by (simp add: stream_defs zero_uninit_def)
  from out_of_range_silently_discarded[OF h, of enum_ascending zero_uninit]
  have 1: "get_neighbors scenario_A enum_ascending 9 = []"
    and 2: "data_line (zero_uninit 0) ''e 1 10'' = Some (0, 9) \<longrightarrow>
       edge_loop zero_uninit 0 [''e 1 10''] scenario_A = edge_loop zero_uninit (Suc 0) [] scenario_A"
    by blast+
  from 2 dl have "edge_loop zero_uninit 0 [''e 1 10''] scenario_A = scenario_A"
    by (simp del: edge_loop.simps(2))
  with nv 1 dl show ?thesis by blast
qed

theorem out_of_range_not_reported_counterexample:
  "get_neighbors scenario_A enum_ascending 7 = [] \<and>
   get_neighbors scenario_A enum_ascending (- 1) = [] \<and>
   add_edge 0 7 scenario_A = scenario_A \<and>
   load_dimacs_graph zero_uninit (Some [''p edge 2 2'', ''e 1 2'', ''e 1 9''])
     = Inr \<lparr>num_vertices = 2, adj_list = [{1}, {0}]\<rparr> \<and>
   load_dimacs_graph zero_uninit (Some [''p edge 2 2'', ''e 1 2''])
     = Inr \<lparr>num_vertices = 2, adj_list = [{1}, {0}]\<rparr>"
  by (simp add: get_neighbors_def scenario_A_eq add_edge_def load_dimacs_graph_def stream_defs
      zero_uninit_def Graph_ctor_def eval_nat_numeral)

text \<open>
  Claim C8, at the failing input. A file without a header line: the loader of
  \<^verbatim>\<open>dataset_taskflow_greedy.cc\<close> ends the process, the loader of
  \<^verbatim>\<open>dataset_taskflow_greedy_weight_neighborhood.cc\<close> returns a graph with no vertices. A
  header without its edge count is accepted by both.
\<close>

theorem missing_header_accepted_by_weight_neighborhood:
  "load_dimacs_graph uninit (Some [''c no header'', ''e 1 2'']) = Inl InvalidHeader \<and>
   load_dimacs_graph_weight_neighborhood uninit (Some [''c no header'', ''e 1 2''])
     = Inr \<lparr>num_vertices = 0, adj_list = []\<rparr> \<and>
   load_dimacs_graph uninit (Some [''p edge 3''])
     = Inr \<lparr>num_vertices = 3, adj_list = [{}, {}, {}]\<rparr> \<and>
   load_dimacs_graph_weight_neighborhood uninit (Some [''p edge 3''])
     = Inr \<lparr>num_vertices = 3, adj_list = [{}, {}, {}]\<rparr>"
  by (simp add: load_dimacs_graph_def load_dimacs_graph_weight_neighborhood_def stream_defs
      Graph_ctor_def add_edge_def eval_nat_numeral)

section \<open>Properties of the neighbourhood-restricted trials\<close>

lemma set_search_order:
  "set (map snd (rev (sort (map (\<lambda>(k, u). (f k u, u)) (enumerate n xs))))) = set xs"
proof -
  have "map snd (map (\<lambda>(k, u). (f k u, u)) (enumerate n xs)) = xs"
    by (induction xs arbitrary: n) auto
  then have "snd ` set (map (\<lambda>(k, u). (f k u, u)) (enumerate n xs)) = set xs"
    by (metis set_map)
  then show ?thesis by simp
qed

lemma greedy_seeded:
  assumes inv: "graph_inv g" and s: "0 \<le> s" "s < num_vertices g"
    and sub: "set order \<subseteq> adj_list g ! nat s"
  shows "\<exists>c. greedy_loop g order [] = Some c \<and> set c \<subseteq> set order \<and>
             pairwise_adjacent g (c @ [s])"
proof -
  have sv: "in_vector g s" using inv s by (simp add: in_vector_iff)
  have ord: "\<forall>u \<in> set order. in_vector g u"
    using graph_inv_sym[OF inv sv] sub by blast
  let ?c = "greedy_spec (\<lambda>u v. v \<in> adj_list g ! nat u) order"
  have 1: "greedy_loop g order [] = Some ?c"
    using find_greedy_eq_spec[OF ord] by (simp add: find_greedy_max_clique_def)
  have cs: "set ?c \<subseteq> set order"
    unfolding greedy_spec_def
    using foldl_step_subset[of "\<lambda>c u. \<forall>v \<in> set c. v \<in> adj_list g ! nat u" "[]" order] by simp
  have pw: "pairwise_adjacent g ?c" by (rule greedy_spec_pairwise[OF inv ord])
  have adj: "is_adjacent g s u = Some True \<and> is_adjacent g u s = Some True" if "u \<in> set ?c" for u
  proof -
    from that cs sub have "u \<in> adj_list g ! nat s" by blast
    with graph_inv_sym[OF inv sv this] sv show ?thesis by (simp add: is_adjacent_def)
  qed
  have "pairwise_adjacent g (?c @ [s])"
    using pw adj by (auto simp: pairwise_adjacent_def)
  with 1 cs show ?thesis by blast
qed

lemma seeded_cliqueI:
  "set c \<subseteq> set neighbors \<Longrightarrow> pairwise_adjacent g (c @ [s]) \<Longrightarrow>
   seeded_clique g neighbors s (c @ [s])"
  by (auto simp: seeded_clique_def)

lemma trial_weight_neighborhood_seeded:
  assumes inv: "graph_inv g" and s: "0 \<le> s" "s < num_vertices g"
    and en: "set (enum (adj_list g ! nat s)) = adj_list g ! nat s"
  shows "\<exists>c. trial_weight_neighborhood g enum (global_degrees g) noise s = Some c \<and>
             seeded_clique g (get_neighbors g enum s) s c"
proof -
  let ?ns = "get_neighbors g enum s"
  have ns: "?ns = enum (adj_list g ! nat s)" using s by (simp add: get_neighbors_def)
  have sv: "in_vector g s" using inv s by (simp add: in_vector_iff)
  have len: "length (global_degrees g) = length (adj_list g)"
    using inv by (simp add: global_degrees_def graph_inv_def)
  have rng: "\<not> (\<exists>u \<in> set ?ns. \<not> (0 \<le> u \<and> nat u < length (global_degrees g)))"
    using graph_inv_sym[OF inv sv] en by (auto simp: ns len in_vector_def)
  let ?order = "map snd (rev (sort (map (\<lambda>(k, u).
       (real_of_int (global_degrees g ! nat u) + noise k, u)) (enumerate 0 ?ns))))"
  have so: "set ?order = set ?ns"
    by (rule set_search_order)
  then have sub: "set ?order \<subseteq> adj_list g ! nat s" by (simp add: ns en)
  from greedy_seeded[OF inv s sub] obtain c where c: "greedy_loop g ?order [] = Some c"
    "set c \<subseteq> set ?order" "pairwise_adjacent g (c @ [s])" by blast
  have tr: "trial_weight_neighborhood g enum (global_degrees g) noise s = Some (c @ [s])"
    unfolding trial_weight_neighborhood_def Let_def find_greedy_max_clique_def
    using rng c(1) by simp
  from c(2) so have "set c \<subseteq> set ?ns" by simp
  from seeded_cliqueI[OF this c(3)] tr show ?thesis by simp
qed

lemma trial_random_neighborhood_seeded:
  assumes inv: "graph_inv g" and s: "0 \<le> s" "s < num_vertices g"
    and en: "set (enum (adj_list g ! nat s)) = adj_list g ! nat s"
    and srt: "is_sorted_by_degree g (get_neighbors g enum s) sorted_candidates"
  shows "\<exists>c. trial_random_neighborhood g sorted_candidates s = Some c \<and>
             seeded_clique g (get_neighbors g enum s) s c"
proof -
  let ?ns = "get_neighbors g enum s"
  have ns: "?ns = enum (adj_list g ! nat s)" using s by (simp add: get_neighbors_def)
  have sv: "in_vector g s" using inv s by (simp add: in_vector_iff)
  from srt have "mset sorted_candidates = mset ?ns" by (simp add: is_sorted_by_degree_def)
  then have so: "set sorted_candidates = set ?ns" by (metis set_mset_mset)
  then have sub: "set sorted_candidates \<subseteq> adj_list g ! nat s" by (simp add: ns en)
  have rng: "\<not> (\<exists>a \<in> set sorted_candidates. \<not> in_vector g a)"
    using graph_inv_sym[OF inv sv] sub by blast
  from greedy_seeded[OF inv s sub] obtain c where c: "greedy_loop g sorted_candidates [] = Some c"
    "set c \<subseteq> set sorted_candidates" "pairwise_adjacent g (c @ [s])" by blast
  have tr: "trial_random_neighborhood g sorted_candidates s = Some (c @ [s])"
    unfolding trial_random_neighborhood_def find_greedy_clique_in_subset_def
    using rng c(1) by simp
  from c(2) so have "set c \<subseteq> set ?ns" by simp
  from seeded_cliqueI[OF this c(3)] tr show ?thesis by simp
qed

text \<open>
  Claim C4. For a graph satisfying the class invariant, a seed \<open>s\<close> in \<open>[0, N)\<close> and an
  iteration order that enumerates the neighbour set of \<open>s\<close>, each neighbourhood-restricted
  trial (the weighted one for every noise, the degree-sorted one for every outcome of the
  unstable sort) returns a clique that contains \<open>s\<close>, whose members other than \<open>s\<close> are
  neighbours of \<open>s\<close>, and that is pairwise adjacent with \<open>s\<close> included.
\<close>

theorem neighborhood_trial_contains_seed:
  assumes "graph_inv g" "0 \<le> s" "s < num_vertices g"
    and "set (enum (adj_list g ! nat s)) = adj_list g ! nat s"
  shows "(\<exists>c. trial_weight_neighborhood g enum (global_degrees g) noise s = Some c \<and>
              seeded_clique g (get_neighbors g enum s) s c) \<and>
         (\<forall>sorted_candidates.
            is_sorted_by_degree g (get_neighbors g enum s) sorted_candidates \<longrightarrow>
            (\<exists>c. trial_random_neighborhood g sorted_candidates s = Some c \<and>
                 seeded_clique g (get_neighbors g enum s) s c))"
  using trial_weight_neighborhood_seeded[where g = g and s = s and enum = enum, OF assms]
    trial_random_neighborhood_seeded[where g = g and s = s and enum = enum, OF assms]
  by blast

lemma ex_neighbors: "get_neighbors scenario_A enum_ascending 2 = [0, 1, 3]"
  by (simp add: get_neighbors_def scenario_A_eq enum_ascending_def eval_nat_numeral upt_rec)

lemma ex_degs: "global_degrees scenario_A = [2, 2, 3, 1]"
  by (simp add: global_degrees_def get_degree_def scenario_A_eq eval_nat_numeral upt_rec)

lemma ex_trial: "trial_weight_neighborhood scenario_A enum_ascending (global_degrees scenario_A) example_noise 2 = Some [1, 0, 2]"
  unfolding trial_weight_neighborhood_def ex_neighbors ex_degs
  by (simp add: example_noise_def find_greedy_max_clique_def scenario_A_eq is_adjacent_def in_vector_def enumerate_eq_zip eval_nat_numeral upt_rec)

lemma ex_sorted: "is_sorted_by_degree scenario_A [0, 1, 3] [0, 1, 3]"
  by (simp add: is_sorted_by_degree_def scenario_A_eq)

lemma ex_trial_rn: "trial_random_neighborhood scenario_A [0, 1, 3] 2 = Some [0, 1, 2]"
  by (simp add: trial_random_neighborhood_def find_greedy_clique_in_subset_def scenario_A_eq
      is_adjacent_def in_vector_def)

theorem neighborhood_trial_contains_seed_witness:
  "graph_inv scenario_A \<and>
   get_neighbors scenario_A enum_ascending 2 = [0, 1, 3] \<and>
   trial_weight_neighborhood scenario_A enum_ascending (global_degrees scenario_A) example_noise 2
     = Some [1, 0, 2] \<and>
   seeded_clique scenario_A [0, 1, 3] 2 [1, 0, 2] \<and>
   is_sorted_by_degree scenario_A [0, 1, 3] [0, 1, 3] \<and>
   trial_random_neighborhood scenario_A [0, 1, 3] 2 = Some [0, 1, 2] \<and>
   seeded_clique scenario_A [0, 1, 3] 2 [0, 1, 2]"
proof -
  have h2: "(0::int) \<le> 2" by simp
  have h3: "2 < num_vertices scenario_A" by (simp add: scenario_A_eq)
  have h4: "set (enum_ascending (adj_list scenario_A ! nat 2)) = adj_list scenario_A ! nat 2"
    by (auto simp: scenario_A_eq enum_ascending_def eval_nat_numeral upt_rec)
  note th = neighborhood_trial_contains_seed[where g = scenario_A and s = 2
      and enum = enum_ascending and noise = example_noise, OF scenario_A_inv h2 h3 h4]
  from th obtain c where c: "trial_weight_neighborhood scenario_A enum_ascending
       (global_degrees scenario_A) example_noise 2 = Some c"
    "seeded_clique scenario_A (get_neighbors scenario_A enum_ascending 2) 2 c" by blast
  from c(1) have "c = [1, 0, 2]" by (simp add: ex_trial)
  with c(2) have 1: "seeded_clique scenario_A [0, 1, 3] 2 [1, 0, 2]" by (simp add: ex_neighbors)
  from th ex_sorted obtain c' where c': "trial_random_neighborhood scenario_A [0, 1, 3] 2 = Some c'"
    "seeded_clique scenario_A (get_neighbors scenario_A enum_ascending 2) 2 c'"
    unfolding ex_neighbors by blast
  from c'(1) have "c' = [0, 1, 2]" by (simp add: ex_trial_rn)
  with c'(2) have 2: "seeded_clique scenario_A [0, 1, 3] 2 [0, 1, 2]" by (simp add: ex_neighbors)
  from scenario_A_inv ex_neighbors ex_trial 1 ex_sorted ex_trial_rn 2 show ?thesis by blast
qed

end
